theory Spec2Isabelle
  imports Main
begin

section \<open>Strings, paths and exceptions\<close>

text \<open>
  Python strings are modelled as \<open>string\<close>; a character stands for a code point below
  256. \<open>str.isspace\<close> holds below 256 exactly for the code points listed here, and
  \<open>str.strip()\<close> removes the longest whitespace prefix and suffix.
\<close>

definition isspace :: "char \<Rightarrow> bool" where
  "isspace c = ((of_char c :: nat) \<in> {9, 10, 11, 12, 13, 28, 29, 30, 31, 32, 133, 160})"

definition lstrip :: "string \<Rightarrow> string" where
  "lstrip s = dropWhile isspace s"

definition rstrip :: "string \<Rightarrow> string" where
  "rstrip s = rev (dropWhile isspace (rev s))"

definition strip :: "string \<Rightarrow> string" where
  "strip s = rstrip (lstrip s)"

text \<open>Python's \<open>a or b\<close> on strings: \<open>a\<close> when it is non-empty, else \<open>b\<close>.\<close>

definition str_or :: "string \<Rightarrow> string \<Rightarrow> string" where
  "str_or a b = (if a \<noteq> [] then a else b)"

text \<open>Decimal rendering of an integer, as an f-string renders \<open>process.returncode\<close>.\<close>

fun str_nat :: "nat \<Rightarrow> string" where
  "str_nat n = (if n < 10 then [char_of (48 + n)] else str_nat (n div 10) @ [char_of (48 + n mod 10)])"

definition str_int :: "int \<Rightarrow> string" where
  "str_int i = (if i < 0 then CHR ''-'' # str_nat (nat (- i)) else str_nat (nat i))"

text \<open>
  \<open>pathlib\<close>: the name is the part after the last separator; the suffix starts at the
  last dot of the name when that dot is neither its first nor its last character;
  \<open>with_suffix\<close> replaces the suffix, or appends when there is none.
\<close>

definition path_name :: "string \<Rightarrow> string" where
  "path_name p = rev (takeWhile (\<lambda>c. c \<noteq> CHR ''/'') (rev p))"

definition path_suffix :: "string \<Rightarrow> string" where
  "path_suffix p =
     (let name = path_name p;
          ext = rev (takeWhile (\<lambda>c. c \<noteq> CHR ''.'') (rev name))
      in if CHR ''.'' \<in> set name \<and> ext \<noteq> [] \<and> length ext + 1 < length name
         then CHR ''.'' # ext else [])"

definition with_suffix :: "string \<Rightarrow> string \<Rightarrow> string" where
  "with_suffix p suffix =
     (if path_suffix p = [] then p @ suffix
      else take (length p - length (path_suffix p)) p @ suffix)"

text \<open>
  The exceptions that reach the code, each with the text \<open>str(exc)\<close> gives.
  All of them derive from \<open>Exception\<close>; cancellation (a \<open>BaseException\<close>) is a
  transition of the scheduler model below, not a value of this type.
\<close>

datatype exn =
    RuntimeError string
  | ValueError string
  | AttributeError string

fun exn_str :: "exn \<Rightarrow> string" where
  "exn_str (RuntimeError m) = m"
| "exn_str (ValueError m) = m"
| "exn_str (AttributeError m) = m"

section \<open>Data model\<close>

text \<open>
  \<open>asyncio.Future\<close>: pending, finished with a result, finished with an exception, or
  cancelled. \<open>done()\<close> is true in every state but the first.
\<close>

datatype fut =
    Pending
  | Finished string
  | Failed exn
  | Cancelled

fun fut_done :: "fut \<Rightarrow> bool" where
  "fut_done Pending = False"
| "fut_done _ = True"

fun resolved :: "fut \<Rightarrow> bool" where
  "resolved (Finished _) = True"
| "resolved (Failed _) = True"
| "resolved _ = False"

text \<open>\<open>TranscriptionTask\<close>; the future is a reference into the store of futures.\<close>

record TranscriptionTask =
  task_id :: string
  audio_path :: string
  language :: "string option"
  prompt :: "string option"
  future :: nat

text \<open>What a request handler hands back: the response model, an \<open>HTTPException\<close>, or an
  exception that leaves the handler uncaught.\<close>

datatype response =
    TranscriptionResponse string string
  | HTTPException nat string
  | Unhandled exn

section \<open>Token check\<close>

definition verify_token :: "string \<Rightarrow> string \<Rightarrow> response + unit" where
  "verify_token API_TOKEN authorization =
     (let expected = ''Bearer '' @ API_TOKEN
      in if API_TOKEN = [] \<or> authorization \<noteq> expected
         then Inl (HTTPException 401 ''Invalid or missing bearer token'')
         else Inr ())"

section \<open>External processes\<close>

text \<open>
  A finished subprocess as \<open>communicate()\<close> reports it, with both streams decoded.
\<close>

record process =
  returncode :: int
  stdout :: string
  stderr :: string

text \<open>Values \<open>json.loads\<close> can return; an object is the list of its items.\<close>

datatype json =
    JNull
  | JBool bool
  | JInt int
  | JFloat int int
  | JStr string
  | JArr "json list"
  | JObj "(string \<times> json) list"

text \<open>
  The state of \<open><prefix>.json\<close> when the transcription process has exited: absent,
  present with text that \<open>json.loads\<close> rejects (with the decoder's message), or present
  and parsed.
\<close>

datatype artifact =
    Missing
  | Unparsable string
  | Parsed json

fun py_type :: "json \<Rightarrow> string" where
  "py_type JNull = ''NoneType''"
| "py_type (JBool _) = ''bool''"
| "py_type (JInt _) = ''int''"
| "py_type (JFloat _ _) = ''float''"
| "py_type (JStr _) = ''str''"
| "py_type (JArr _) = ''list''"
| "py_type (JObj _) = ''dict''"

text \<open>\<open>payload.get("text")\<close>: only a dict has \<open>get\<close>; a missing key gives \<open>None\<close>.\<close>

fun payload_get :: "json \<Rightarrow> string \<Rightarrow> exn + json" where
  "payload_get (JObj kvs) k = Inr (case map_of kvs k of None \<Rightarrow> JNull | Some v \<Rightarrow> v)"
| "payload_get j k =
     Inl (AttributeError ([CHR 0x27] @ py_type j @ [CHR 0x27] @ '' object has no attribute ''
            @ [CHR 0x27] @ ''get'' @ [CHR 0x27]))"

definition run_whisper :: "process \<Rightarrow> artifact \<Rightarrow> exn + string" where
  "run_whisper p output_file =
     (if returncode p \<noteq> 0 then
        Inl (RuntimeError (''whisper.cpp failed with code '' @ str_int (returncode p) @ '': ''
               @ str_or (strip (stderr p)) (strip (stdout p))))
      else case output_file of
        Missing \<Rightarrow> Inl (RuntimeError ''whisper.cpp did not create JSON output'')
      | Unparsable m \<Rightarrow> Inl (ValueError m)
      | Parsed payload \<Rightarrow>
          (case payload_get payload ''text'' of
             Inl e \<Rightarrow> Inl e
           | Inr (JStr text) \<Rightarrow> Inr (strip text)
           | Inr _ \<Rightarrow> Inl (RuntimeError ''JSON output missing transcription text'')))"

section \<open>Audio normalisation\<close>

text \<open>
  \<open>convert_audio_to_whisper_format\<close>, from the point where the converter has exited:
  \<open>p\<close> is what \<open>communicate()\<close> reported and \<open>files\<close> the files that exist then.
\<close>

definition convert_audio_to_whisper_format :: "string \<Rightarrow> process \<Rightarrow> string set \<Rightarrow> exn + string" where
  "convert_audio_to_whisper_format source_path p files =
     (let normalized_path = with_suffix source_path ''.normalized.wav''
      in if returncode p \<noteq> 0 \<or> normalized_path \<notin> files then
           Inl (RuntimeError (''audio conversion failed: ''
                  @ str_or (str_or (strip (stderr p)) (strip (stdout p))) ''unknown ffmpeg error''))
         else Inr normalized_path)"

section \<open>The scheduler: queue, worker, futures, files\<close>

text \<open>
  A worker coroutine is suspended either in \<open>queue.get()\<close> or inside \<open>run_whisper\<close>
  on the subprocess of the task it holds; or it has ended, by cancellation or by an
  exception that left its loop.
\<close>

datatype wstate =
    Waiting
  | Running TranscriptionTask
  | Stopped
  | Crashed exn

text \<open>
  The shared state of the process: the configuration, \<open>app.state.queue\<close> with its
  count of unfinished tasks, \<open>app.state.worker_task\<close>, every coroutine made from
  \<open>worker()\<close>, the futures, the files that exist, and the response of each request
  that has returned. \<open>put_log\<close> and \<open>get_log\<close> record the tasks put on the queue and
  taken from it, in order; nothing reads them.
\<close>

record sys =
  API_TOKEN :: string
  queue :: "TranscriptionTask list"
  unfinished_tasks :: nat
  worker_task :: "nat option"
  workers :: "wstate list"
  futures :: "nat \<Rightarrow> fut option"
  fs :: "string set"
  responses :: "nat \<Rightarrow> response option"
  next_request :: nat
  put_log :: "TranscriptionTask list"
  get_log :: "TranscriptionTask list"

definition init :: "string \<Rightarrow> string set \<Rightarrow> sys" where
  "init token files =
     \<lparr> API_TOKEN = token, queue = [], unfinished_tasks = 0, worker_task = None,
       workers = [], futures = (\<lambda>_. None), fs = files, responses = (\<lambda>_. None),
       next_request = 0, put_log = [], get_log = [] \<rparr>"

subsection \<open>Lifecycle\<close>

definition startup_event :: "sys \<Rightarrow> exn + sys" where
  "startup_event s =
     (if API_TOKEN s = [] then Inl (RuntimeError ''API_TOKEN environment variable is required'')
      else if worker_task s = None then
        Inr (s\<lparr> worker_task := Some (length (workers s)), workers := workers s @ [Waiting] \<rparr>)
      else Inr s)"

text \<open>
  The \<open>finally\<close> block of the worker: \<open>unlink(missing_ok=True)\<close>, then
  \<open>queue.task_done()\<close>, which raises \<open>ValueError\<close> when no task is unfinished. The
  result is the state and the exception that leaves the block, if any.
\<close>

definition worker_finally :: "TranscriptionTask \<Rightarrow> sys \<Rightarrow> sys \<times> exn option" where
  "worker_finally task s =
     (let s1 = s\<lparr> fs := fs s - {audio_path task} \<rparr>
      in if unfinished_tasks s1 = 0 then (s1, Some (ValueError ''task_done() called too many times''))
         else (s1\<lparr> unfinished_tasks := unfinished_tasks s1 - 1 \<rparr>, None))"

text \<open>
  \<open>shutdown_event\<close> cancels the worker and awaits it. \<open>CancelledError\<close> is not an
  \<open>Exception\<close>: thrown into a worker inside \<open>run_whisper\<close> it passes the \<open>except\<close>
  clause, runs the \<open>finally\<close> block and ends the coroutine.
\<close>

definition shutdown_event :: "sys \<Rightarrow> sys" where
  "shutdown_event s =
     (case worker_task s of
        None \<Rightarrow> s
      | Some w \<Rightarrow>
          if w < length (workers s) then
            (case workers s ! w of
               Waiting \<Rightarrow> s\<lparr> workers := (workers s)[w := Stopped] \<rparr>
             | Running task \<Rightarrow>
                 (let s1 = fst (worker_finally task s)
                  in s1\<lparr> workers := (workers s1)[w := Stopped] \<rparr>)
             | _ \<Rightarrow> s)
          else s)"

subsection \<open>Worker\<close>

text \<open>\<open>queue.get()\<close> by worker \<open>w\<close>: it takes the oldest task, when there is one.\<close>

definition worker_get :: "nat \<Rightarrow> sys \<Rightarrow> sys" where
  "worker_get w s =
     (if w < length (workers s) \<and> workers s ! w = Waiting then
        (case queue s of
           [] \<Rightarrow> s
         | task # rest \<Rightarrow>
             s\<lparr> queue := rest, workers := (workers s)[w := Running task],
                get_log := get_log s @ [task] \<rparr>)
      else s)"

text \<open>The \<open>try\<close>/\<open>except\<close> of the worker on a future in state \<open>f\<close>.\<close>

definition resolve :: "fut \<Rightarrow> exn + string \<Rightarrow> fut" where
  "resolve f r =
     (case r of
        Inr text \<Rightarrow> if \<not> fut_done f then Finished text else f
      | Inl exc \<Rightarrow> if \<not> fut_done f then Failed exc else f)"

text \<open>
  Lines 192 to 199 of \<open>transcribe_audio\<close>: what \<open>wait_for\<close> gave, and the response.
\<close>

datatype waited =
    Returned string
  | Raised exn
  | TimedOut

fun transcribe_audio_response :: "string \<Rightarrow> waited \<Rightarrow> response" where
  "transcribe_audio_response tid (Returned text) = TranscriptionResponse tid text"
| "transcribe_audio_response tid TimedOut = HTTPException 504 ''Transcription timed out''"
| "transcribe_audio_response tid (Raised exc) = HTTPException 500 (exn_str exc)"

fun waited_of :: "exn + string \<Rightarrow> waited" where
  "waited_of (Inr text) = Returned text"
| "waited_of (Inl exc) = Raised exc"

text \<open>
  Worker \<open>w\<close> resumes from \<open>run_whisper\<close> with subprocess result \<open>p\<close> and output file
  \<open>a\<close>. No \<open>await\<close> lies between there and the next \<open>queue.get()\<close>, so the body of
  the loop is one transition. A future that was pending wakes the handler waiting on
  it, which returns its response; the \<open>task_id\<close> of the handler is the one it gave
  the task.
\<close>

definition worker_done :: "nat \<Rightarrow> process \<Rightarrow> artifact \<Rightarrow> sys \<Rightarrow> sys" where
  "worker_done w p a s =
     (if w < length (workers s) then
        (case workers s ! w of
           Running task \<Rightarrow>
             (let r = run_whisper p a;
                  s1 = (case futures s (future task) of
                          Some f \<Rightarrow>
                            s\<lparr> futures := (futures s)(future task \<mapsto> resolve f r),
                               responses :=
                                 (if fut_done f then responses s
                                  else (responses s)(future task \<mapsto>
                                    transcribe_audio_response (task_id task) (waited_of r))) \<rparr>
                        | None \<Rightarrow> s);
                  (s2, raised) = worker_finally task s1
              in case raised of
                   None \<Rightarrow> s2\<lparr> workers := (workers s2)[w := Waiting] \<rparr>
                 | Some exc \<Rightarrow> s2\<lparr> workers := (workers s2)[w := Crashed exc] \<rparr>)
         | _ \<Rightarrow> s)
      else s)"

subsection \<open>Submission\<close>

text \<open>
  One upload: the header, the identifier \<open>uuid4\<close> drew, the name \<open>NamedTemporaryFile\<close>
  chose, the hints, and what the converter did: its result and whether it wrote the
  normalised file.
\<close>

record upload =
  authorization :: string
  new_task_id :: string
  tmp_name :: string
  up_language :: "string option"
  up_prompt :: "string option"
  ffmpeg :: process
  ffmpeg_wrote :: bool

text \<open>
  Lines 170 to 179: stage the upload, convert it, and unlink the staged copy in the
  \<open>finally\<close> block. The result is that of the conversion and the files left.
\<close>

definition stage_and_convert :: "upload \<Rightarrow> string set \<Rightarrow> (exn + string) \<times> string set" where
  "stage_and_convert u files =
     (let source_audio_path = tmp_name u;
          staged = insert source_audio_path files;
          after_ffmpeg = (if ffmpeg_wrote u
                          then insert (with_suffix source_audio_path ''.normalized.wav'') staged
                          else staged);
          r = convert_audio_to_whisper_format source_audio_path (ffmpeg u) after_ffmpeg
      in (r, after_ffmpeg - {source_audio_path}))"

text \<open>
  \<open>transcribe_audio\<close> up to \<open>queue.put\<close>, behind the \<open>verify_token\<close> dependency. The
  request takes the next request number, which also names its future.
\<close>

definition transcribe_audio_submit :: "upload \<Rightarrow> sys \<Rightarrow> sys" where
  "transcribe_audio_submit u s =
     (let n = next_request s
      in case verify_token (API_TOKEN s) (authorization u) of
           Inl rejected \<Rightarrow> s\<lparr> responses := (responses s)(n \<mapsto> rejected), next_request := n + 1 \<rparr>
         | Inr _ \<Rightarrow>
             (case stage_and_convert u (fs s) of
                (Inl exc, files) \<Rightarrow>
                  s\<lparr> fs := files, responses := (responses s)(n \<mapsto> Unhandled exc),
                     next_request := n + 1 \<rparr>
              | (Inr normalized_audio_path, files) \<Rightarrow>
                  (let task = \<lparr> task_id = new_task_id u, audio_path = normalized_audio_path,
                                language = up_language u, prompt = up_prompt u, future = n \<rparr>
                   in s\<lparr> fs := files, futures := (futures s)(n \<mapsto> Pending),
                         queue := queue s @ [task],
                         unfinished_tasks := unfinished_tasks s + 1,
                         next_request := n + 1,
                         put_log := put_log s @ [task] \<rparr>)))"

text \<open>
  The deadline of the handler waiting on future \<open>n\<close>: \<open>wait_for\<close> cancels the future
  it waits on and raises \<open>TimeoutError\<close>. A handler whose future is done has returned.
\<close>

definition deadline :: "nat \<Rightarrow> sys \<Rightarrow> sys" where
  "deadline n s =
     (case futures s n of
        Some Pending \<Rightarrow>
          s\<lparr> futures := (futures s)(n \<mapsto> Cancelled),
             responses := (responses s)(n \<mapsto> transcribe_audio_response [] TimedOut) \<rparr>
      | _ \<Rightarrow> s)"

subsection \<open>Runs\<close>

datatype event =
    Startup
  | Shutdown
  | Request upload
  | Deadline nat
  | Worker_get nat
  | Worker_done nat process artifact

fun step :: "event \<Rightarrow> sys \<Rightarrow> sys" where
  "step Startup s = (case startup_event s of Inl _ \<Rightarrow> s | Inr s' \<Rightarrow> s')"
| "step Shutdown s = shutdown_event s"
| "step (Request u) s = transcribe_audio_submit u s"
| "step (Deadline n) s = deadline n s"
| "step (Worker_get w) s = worker_get w s"
| "step (Worker_done w p a) s = worker_done w p a s"

fun run :: "event list \<Rightarrow> sys \<Rightarrow> sys" where
  "run [] s = s"
| "run (e # es) s = run es (step e s)"

text \<open>The worker serving the queue: one \<open>get\<close> and one finished subprocess per task.\<close>

fun serve :: "nat \<Rightarrow> (process \<times> artifact) list \<Rightarrow> event list" where
  "serve w [] = []"
| "serve w ((p, a) # rest) = Worker_get w # Worker_done w p a # serve w rest"

subsection \<open>Invariant of the reachable states\<close>

text \<open>A worker executes a task exactly while it is suspended inside \<open>run_whisper\<close>.\<close>

fun is_running :: "wstate \<Rightarrow> bool" where
  "is_running (Running _) = True"
| "is_running _ = False"

text \<open>A task is settled when its future is done: resolved by the worker, or cancelled.\<close>

definition settled :: "sys \<Rightarrow> TranscriptionTask \<Rightarrow> bool" where
  "settled s t = (case futures s (future t) of Some f \<Rightarrow> fut_done f | None \<Rightarrow> False)"

text \<open>
  There is at most one worker, the one \<open>app.state.worker_task\<close> names. While it waits,
  every task it took is settled and the queue holds all unfinished tasks; while it
  runs a task, that task is the last one taken and counts as unfinished too.
\<close>

fun worker_inv :: "sys \<Rightarrow> bool" where
  "worker_inv s =
     (case workers s of
        [] \<Rightarrow> worker_task s = None \<and> get_log s = [] \<and> unfinished_tasks s = length (queue s)
      | [Waiting] \<Rightarrow> worker_task s = Some 0 \<and> unfinished_tasks s = length (queue s)
                      \<and> (\<forall>t \<in> set (get_log s). settled s t)
      | [Running task] \<Rightarrow> worker_task s = Some 0 \<and> unfinished_tasks s = length (queue s) + 1
                      \<and> get_log s \<noteq> [] \<and> last (get_log s) = task
                      \<and> (\<forall>t \<in> set (butlast (get_log s)). settled s t)
      | [Stopped] \<Rightarrow> worker_task s = Some 0
      | _ \<Rightarrow> False)"

definition inv :: "sys \<Rightarrow> bool" where
  "inv s \<longleftrightarrow>
     put_log s = get_log s @ queue s \<and>
     (\<forall>t \<in> set (put_log s). futures s (future t) \<noteq> None) \<and>
     (\<forall>n. next_request s \<le> n \<longrightarrow> futures s n = None) \<and>
     worker_inv s"

subsection \<open>Sample inputs\<close>

text \<open>
  Two uploads that convert, one whose converter fails, the tasks the first two become
  as the first and second request, and outcomes of the transcription process.
\<close>

definition sample_upload :: upload where
  "sample_upload =
     \<lparr> authorization = ''Bearer k'', new_task_id = ''id0'', tmp_name = ''/tmp/tmpa.mp3'',
       up_language = None, up_prompt = None,
       ffmpeg = \<lparr> returncode = 0, stdout = [], stderr = [] \<rparr>, ffmpeg_wrote = True \<rparr>"

definition sample_task :: TranscriptionTask where
  "sample_task =
     \<lparr> task_id = ''id0'', audio_path = ''/tmp/tmpa.normalized.wav'',
       language = None, prompt = None, future = 0 \<rparr>"

definition exit_ok :: process where
  "exit_ok = \<lparr> returncode = 0, stdout = [], stderr = [] \<rparr>"

definition exit_failed :: process where
  "exit_failed = \<lparr> returncode = 1, stdout = [], stderr = ''boom'' \<rparr>"

definition sample_json :: artifact where
  "sample_json = Parsed (JObj [(''text'', JStr '' hi '')])"

definition failing_upload :: upload where
  "failing_upload =
     \<lparr> authorization = ''Bearer k'', new_task_id = ''id1'', tmp_name = ''/tmp/tmpb.ogg'',
       up_language = None, up_prompt = None,
       ffmpeg = \<lparr> returncode = 1, stdout = [], stderr = ''bad input'' \<rparr>, ffmpeg_wrote = False \<rparr>"

definition second_upload :: upload where
  "second_upload =
     \<lparr> authorization = ''Bearer k'', new_task_id = ''id1'', tmp_name = ''/tmp/tmpc.wav'',
       up_language = Some ''en'', up_prompt = None,
       ffmpeg = \<lparr> returncode = 0, stdout = [], stderr = [] \<rparr>, ffmpeg_wrote = True \<rparr>"

definition second_task :: TranscriptionTask where
  "second_task =
     \<lparr> task_id = ''id1'', audio_path = ''/tmp/tmpc.normalized.wav'',
       language = Some ''en'', prompt = None, future = 1 \<rparr>"

section \<open>The invariant holds in every reachable state\<close>

lemma inv_init: "inv (init token files)"
  by (simp add: inv_def init_def)

lemma inv_startup: "inv s \<Longrightarrow> inv (step Startup s)"
  by (auto simp: inv_def startup_event_def settled_def split: list.splits wstate.splits)

lemma inv_deadline: "inv s \<Longrightarrow> inv (step (Deadline n) s)"
  by (auto simp: inv_def deadline_def settled_def split: list.splits wstate.splits option.splits fut.splits)


lemma inv_shutdown: "inv s \<Longrightarrow> inv (step Shutdown s)"
  by (auto simp: inv_def shutdown_event_def worker_finally_def Let_def settled_def
           split: list.splits wstate.splits option.splits)

lemma inv_worker_get: "inv s \<Longrightarrow> inv (step (Worker_get w) s)"
  by (auto simp: inv_def worker_get_def settled_def butlast_append
           split: list.splits wstate.splits option.splits)

lemma fresh_future:
  "\<forall>n. next_request s \<le> n \<longrightarrow> futures s n = None \<Longrightarrow> futures s k = Some f \<Longrightarrow> k \<noteq> next_request s"
  by auto

lemma inv_request: "inv s \<Longrightarrow> inv (step (Request u) s)"
proof -
  assume I: "inv s"
  show ?thesis
  proof (cases "verify_token (API_TOKEN s) (authorization u)")
    case (Inl r)
    with I show ?thesis
      by (auto simp: inv_def transcribe_audio_submit_def Let_def settled_def
               split: list.splits wstate.splits)
  next
    case (Inr x)
    obtain r files where sc: "stage_and_convert u (fs s) = (r, files)"
      by (cases "stage_and_convert u (fs s)")
    show ?thesis
    proof (cases r)
      case (Inl e)
      with I \<open>verify_token (API_TOKEN s) (authorization u) = Inr x\<close> sc show ?thesis
        by (auto simp: inv_def transcribe_audio_submit_def Let_def settled_def
               split: list.splits wstate.splits)
    next
      case (Inr path)
      have fresh: "future t \<noteq> next_request s" if "t \<in> set (put_log s)" for t
      proof
        assume "future t = next_request s"
        moreover from I have "futures s (next_request s) = None"
          by (simp add: inv_def)
        moreover from I that have "futures s (future t) \<noteq> None"
          by (simp add: inv_def)
        ultimately show False by simp
      qed
      from I have pl: "put_log s = get_log s @ queue s"
        by (simp add: inv_def)
      from I fresh [unfolded pl] Inr sc \<open>verify_token (API_TOKEN s) (authorization u) = Inr x\<close> show ?thesis
        by (auto simp: inv_def transcribe_audio_submit_def Let_def settled_def
               split: list.splits wstate.splits)
    qed
  qed
qed


lemma inv_worker_done: "inv s \<Longrightarrow> inv (step (Worker_done w p a) s)"
proof -
  assume I: "inv s"
  show ?thesis
  proof (cases "w < length (workers s)")
    case False
    with I show ?thesis by (simp add: worker_done_def)
  next
    case True
    show ?thesis
    proof (cases "workers s ! w")
      case (Running task)
      from I True Running have ws: "workers s = [Running task]" and w0: "w = 0"
        by (auto simp: inv_def split: list.splits wstate.splits)
      from I ws have facts: "put_log s = get_log s @ queue s" "get_log s \<noteq> []"
        "last (get_log s) = task" "unfinished_tasks s = length (queue s) + 1"
        "\<forall>t \<in> set (butlast (get_log s)). settled s t" "worker_task s = Some 0"
        "\<forall>t \<in> set (put_log s). futures s (future t) \<noteq> None"
        "\<forall>n. next_request s \<le> n \<longrightarrow> futures s n = None"
        by (auto simp: inv_def)
      from facts(1,2,3) have "task \<in> set (put_log s)"
        by (metis Un_iff last_in_set set_append)
      with facts(7) have "futures s (future task) \<noteq> None" by blast
      then obtain f where f: "futures s (future task) = Some f" by blast
      have gl: "set (get_log s) = insert task (set (butlast (get_log s)))"
        using facts(2,3) by (metis append_butlast_last_id list.simps(15) rotate1.simps(2) set_rotate1)
      show ?thesis
        using ws w0 f facts gl
        by (auto simp: inv_def worker_done_def worker_finally_def resolve_def Let_def settled_def
                 split: sum.splits)
    qed (use I True in \<open>simp_all add: worker_done_def\<close>)
  qed
qed


lemma inv_step: "inv s \<Longrightarrow> inv (step e s)"
  by (cases e) (simp_all only: inv_startup inv_shutdown inv_request inv_deadline inv_worker_get inv_worker_done)

lemma run_append: "run (xs @ ys) s = run ys (run xs s)"
  by (induction xs arbitrary: s) simp_all

lemma inv_run: "inv s \<Longrightarrow> inv (run evs s)"
  by (induction evs arbitrary: s) (simp_all add: inv_step)

lemma inv_reachable: "inv (run evs (init token files))"
  by (simp add: inv_run inv_init)

lemmas sample_defs = sample_upload_def sample_task_def exit_ok_def exit_failed_def sample_json_def
lemmas op_defs = init_def startup_event_def shutdown_event_def worker_finally_def worker_get_def
  worker_done_def resolve_def transcribe_audio_submit_def stage_and_convert_def deadline_def
  verify_token_def convert_audio_to_whisper_format_def run_whisper_def with_suffix_def
  path_suffix_def path_name_def strip_def lstrip_def rstrip_def isspace_def str_or_def str_int_def
  Let_def

section \<open>Paths\<close>

lemma path_name_suffix: "\<exists>q. p = q @ path_name p"
proof -
  have "rev p = takeWhile (\<lambda>c. c \<noteq> CHR ''/'') (rev p) @ dropWhile (\<lambda>c. c \<noteq> CHR ''/'') (rev p)"
    by simp
  then have "p = rev (dropWhile (\<lambda>c. c \<noteq> CHR ''/'') (rev p)) @ path_name p"
    unfolding path_name_def by (metis rev_append rev_rev_ident)
  then show ?thesis ..
qed

lemma dot_before_ext:
  assumes "CHR ''.'' \<in> set name"
  shows "\<exists>q. name = q @ CHR ''.'' # rev (takeWhile (\<lambda>c. c \<noteq> CHR ''.'') (rev name))"
proof -
  let ?P = "\<lambda>c. c \<noteq> CHR ''.''"
  from assms have ne: "dropWhile ?P (rev name) \<noteq> []"
    by (simp add: dropWhile_eq_Nil_conv) 
  then have "hd (dropWhile ?P (rev name)) = CHR ''.''"
    using hd_dropWhile [of ?P "rev name"] by simp
  with ne obtain r where r: "dropWhile ?P (rev name) = CHR ''.'' # r"
    by (cases "dropWhile ?P (rev name)") auto
  have "rev name = takeWhile ?P (rev name) @ dropWhile ?P (rev name)" by simp
  with r have "rev name = takeWhile ?P (rev name) @ CHR ''.'' # r" by simp
  then have "rev (rev name) = rev (takeWhile ?P (rev name) @ CHR ''.'' # r)" by simp
  then have "name = rev r @ CHR ''.'' # rev (takeWhile ?P (rev name))" by simp
  then show ?thesis ..
qed

lemma path_suffix_suffix: "\<exists>q. p = q @ path_suffix p"
proof (cases "path_suffix p = []")
  case True
  then show ?thesis by simp
next
  case False
  let ?name = "path_name p"
  let ?ext = "rev (takeWhile (\<lambda>c. c \<noteq> CHR ''.'') (rev ?name))"
  from False have dot: "CHR ''.'' \<in> set ?name" and ps: "path_suffix p = CHR ''.'' # ?ext"
    by (auto simp: path_suffix_def Let_def split: if_splits)
  from dot_before_ext [OF dot] obtain q where "?name = q @ CHR ''.'' # ?ext" ..
  moreover from path_name_suffix obtain q' where "p = q' @ ?name" ..
  ultimately have "p = (q' @ q) @ path_suffix p" using ps by simp
  then show ?thesis ..
qed

lemma path_suffix_one_dot:
  "path_suffix p \<noteq> [] \<Longrightarrow> \<exists>ext. path_suffix p = CHR ''.'' # ext \<and> CHR ''.'' \<notin> set ext"
proof -
  assume ne: "path_suffix p \<noteq> []"
  let ?ext = "rev (takeWhile (\<lambda>c. c \<noteq> CHR ''.'') (rev (path_name p)))"
  from ne have "path_suffix p = CHR ''.'' # ?ext"
    by (auto simp: path_suffix_def Let_def split: if_splits)
  moreover have "CHR ''.'' \<notin> set ?ext"
    by (auto dest: set_takeWhileD)
  ultimately show ?thesis by blast
qed

lemma with_suffix_neq: "with_suffix p ''.normalized.wav'' \<noteq> p"
proof (cases "path_suffix p = []")
  case True
  then show ?thesis by (simp add: with_suffix_def)
next
  case False
  from path_suffix_suffix obtain q where q: "p = q @ path_suffix p" ..
  from path_suffix_one_dot [OF False] obtain ext
    where ext: "path_suffix p = CHR ''.'' # ext" "CHR ''.'' \<notin> set ext" by blast
  have len: "length p - length (path_suffix p) = length q"
    using q by (metis add_diff_cancel_right' length_append)
  have tk: "take (length q) p = q"
    using q by (metis append_eq_conv_conj)
  show ?thesis
  proof
    assume "with_suffix p ''.normalized.wav'' = p"
    with False len tk have "q @ ''.normalized.wav'' = p"
      by (simp add: with_suffix_def)
    with q have "q @ ''.normalized.wav'' = q @ path_suffix p" by simp
    then have "path_suffix p = ''.normalized.wav''" by simp
    with ext show False by auto
  qed
qed

section \<open>Properties\<close>

text \<open>
  Claim C10. The token check rejects with status 401 exactly when the configured token
  is empty or the header differs from \<open>Bearer\<close>, a space and the token; with an empty
  token every header is rejected.
\<close>

theorem verify_token_rejects_exactly:
  "((\<exists>detail. verify_token token header = Inl (HTTPException 401 detail))
      \<longleftrightarrow> (token = [] \<or> header \<noteq> ''Bearer '' @ token))
   \<and> (verify_token token header = Inr () \<longleftrightarrow> \<not> (token = [] \<or> header \<noteq> ''Bearer '' @ token))
   \<and> (\<exists>detail. verify_token [] header = Inl (HTTPException 401 detail))"
  by (simp add: verify_token_def)

theorem verify_token_rejects_exactly_witness:
  "verify_token ''k'' ''Bearer k'' = Inr ()
   \<and> (\<exists>detail. verify_token ''k'' ''Bearer x'' = Inl (HTTPException 401 detail))
   \<and> (\<exists>detail. verify_token [] ''Bearer '' = Inl (HTTPException 401 detail))"
  using verify_token_rejects_exactly [of "''k''" "''Bearer k''"]
        verify_token_rejects_exactly [of "''k''" "''Bearer x''"]
        verify_token_rejects_exactly [of "[]" "''Bearer ''"]
  by simp

lemma workers_reachable:
  "inv s \<Longrightarrow> length (workers s) \<le> 1 \<and> (worker_task s = None \<longleftrightarrow> workers s = [])"
  by (auto simp: inv_def split: list.splits wstate.splits)

text \<open>
  Claim C8. Startup with a worker already recorded changes nothing, a second startup
  after a successful one returns the same state, and no run of the system ever holds
  more than one worker.
\<close>

theorem startup_idempotent:
  "(worker_task s \<noteq> None \<longrightarrow> step Startup s = s)
   \<and> (startup_event s = Inr s1 \<longrightarrow> startup_event s1 = Inr s1)
   \<and> step Startup (step Startup s) = step Startup s
   \<and> length (workers (run evs (init token files))) \<le> 1"
proof -
  have "length (workers (run evs (init token files))) \<le> 1"
    using workers_reachable [OF inv_reachable] by blast
  moreover have "worker_task s \<noteq> None \<longrightarrow> step Startup s = s"
    by (auto simp: startup_event_def)
  moreover have "startup_event s = Inr s1 \<longrightarrow> startup_event s1 = Inr s1"
    by (auto simp: startup_event_def split: if_splits)
  moreover have "step Startup (step Startup s) = step Startup s"
    by (auto simp: startup_event_def)
  ultimately show ?thesis by blast
qed

theorem startup_idempotent_witness:
  "workers (run [Startup, Startup] (init ''k'' {})) = [Waiting]
   \<and> step Startup (run [Startup] (init ''k'' {})) = run [Startup] (init ''k'' {})
   \<and> startup_event (run [Startup] (init ''k'' {})) = Inr (run [Startup] (init ''k'' {}))"
proof -
  have a: "worker_task (run [Startup] (init ''k'' {})) \<noteq> None"
    by (simp add: init_def startup_event_def)
  have b: "startup_event (init ''k'' {}) = Inr (run [Startup] (init ''k'' {}))"
    by (simp add: init_def startup_event_def)
  from startup_idempotent [of "run [Startup] (init ''k'' {})" "run [Startup] (init ''k'' {})" "[Startup, Startup]" "''k''" "{}"]
       startup_idempotent [of "init ''k'' {}" "run [Startup] (init ''k'' {})" "[]" "''k''" "{}"] a b
  show ?thesis by (simp add: init_def startup_event_def)
qed

text \<open>
  Claim C3. When the worker finishes a task, whatever the subprocess did, the audio
  file of the task is gone afterwards; so it is when the future was already done
  (cancelled at the deadline of the handler) and resolving it changed nothing, and when
  the worker is cancelled by shutdown while it runs the task.
\<close>

theorem worker_releases_input:
  assumes "w < length (workers s)" and "workers s ! w = Running task"
  shows "audio_path task \<notin> fs (step (Worker_done w p a) s)
         \<and> (\<forall>f. futures s (future task) = Some f \<and> fut_done f \<longrightarrow>
               futures (step (Worker_done w p a) s) (future task) = Some f
               \<and> audio_path task \<notin> fs (step (Worker_done w p a) s))
         \<and> (worker_task s = Some w \<longrightarrow> audio_path task \<notin> fs (step Shutdown s))"
  using assms
  by (auto simp: worker_done_def worker_finally_def shutdown_event_def resolve_def Let_def
           split: option.splits sum.splits)


theorem worker_releases_input_witness:
  "audio_path sample_task \<in> fs (run [Startup, Request sample_upload, Worker_get 0, Deadline 0] (init ''k'' {}))
   \<and> audio_path sample_task \<notin>
       fs (step (Worker_done 0 exit_failed Missing)
            (run [Startup, Request sample_upload, Worker_get 0, Deadline 0] (init ''k'' {})))
   \<and> futures (step (Worker_done 0 exit_failed Missing)
        (run [Startup, Request sample_upload, Worker_get 0, Deadline 0] (init ''k'' {}))) 0 = Some Cancelled
   \<and> audio_path sample_task \<notin>
       fs (step Shutdown (run [Startup, Request sample_upload, Worker_get 0, Deadline 0] (init ''k'' {})))"
proof -
  let ?s = "run [Startup, Request sample_upload, Worker_get 0, Deadline 0] (init ''k'' {})"
  have h1: "0 < length (workers ?s)"
    by (simp add: sample_defs op_defs)
  have h2: "workers ?s ! 0 = Running sample_task"
    by (simp add: sample_defs op_defs)
  have h3: "futures ?s (future sample_task) = Some Cancelled \<and> fut_done Cancelled"
    by (simp add: sample_defs op_defs)
  have h4: "worker_task ?s = Some 0"
    by (simp add: sample_defs op_defs)
  have h5: "audio_path sample_task \<in> fs ?s"
    by (simp add: sample_defs op_defs)
  have h6: "future sample_task = 0"
    by (simp add: sample_defs)
  from worker_releases_input [OF h1 h2, of exit_failed Missing] h3 h4 h5 h6
  show ?thesis by simp
qed

lemma convert_fails_iff:
  "(\<exists>exc. convert_audio_to_whisper_format source_path p files = Inl exc)
     \<longleftrightarrow> (returncode p \<noteq> 0 \<or> with_suffix source_path ''.normalized.wav'' \<notin> files)"
  by (simp add: convert_audio_to_whisper_format_def Let_def)

text \<open>
  Claim C7. The conversion raises exactly when the converter exited with a non-zero
  status or the normalised file does not exist; and a request whose conversion raises
  creates no future, puts nothing on the queue and returns the exception at once.
\<close>

theorem normalization_failure_before_job:
  "((\<exists>exc. convert_audio_to_whisper_format source_path p files = Inl exc)
      \<longleftrightarrow> (returncode p \<noteq> 0 \<or> with_suffix source_path ''.normalized.wav'' \<notin> files))
   \<and> ((\<exists>exc. fst (stage_and_convert u files) = Inl exc)
      \<longleftrightarrow> (returncode (ffmpeg u) \<noteq> 0
           \<or> (\<not> ffmpeg_wrote u \<and> with_suffix (tmp_name u) ''.normalized.wav'' \<notin> files)))
   \<and> (verify_token (API_TOKEN s) (authorization u) = Inr ()
        \<and> fst (stage_and_convert u (fs s)) = Inl exc \<longrightarrow>
          queue (step (Request u) s) = queue s
          \<and> put_log (step (Request u) s) = put_log s
          \<and> futures (step (Request u) s) = futures s
          \<and> unfinished_tasks (step (Request u) s) = unfinished_tasks s
          \<and> workers (step (Request u) s) = workers s
          \<and> responses (step (Request u) s) (next_request s) = Some (Unhandled exc))"
proof -
  have "(\<exists>exc. fst (stage_and_convert u files) = Inl exc)
      \<longleftrightarrow> (returncode (ffmpeg u) \<noteq> 0
           \<or> (\<not> ffmpeg_wrote u \<and> with_suffix (tmp_name u) ''.normalized.wav'' \<notin> files))"
    using with_suffix_neq [of "tmp_name u"]
    by (auto simp: stage_and_convert_def convert_audio_to_whisper_format_def Let_def)
  moreover have "verify_token (API_TOKEN s) (authorization u) = Inr ()
        \<and> fst (stage_and_convert u (fs s)) = Inl exc \<longrightarrow>
          queue (step (Request u) s) = queue s
          \<and> put_log (step (Request u) s) = put_log s
          \<and> futures (step (Request u) s) = futures s
          \<and> unfinished_tasks (step (Request u) s) = unfinished_tasks s
          \<and> workers (step (Request u) s) = workers s
          \<and> responses (step (Request u) s) (next_request s) = Some (Unhandled exc)"
    by (cases "stage_and_convert u (fs s)") (auto simp: transcribe_audio_submit_def Let_def)
  ultimately show ?thesis
    using convert_fails_iff by blast
qed

theorem normalization_failure_before_job_witness:
  "queue (step (Request failing_upload) (run [Startup] (init ''k'' {}))) = []
   \<and> futures (step (Request failing_upload) (run [Startup] (init ''k'' {}))) 0 = None
   \<and> responses (step (Request failing_upload) (run [Startup] (init ''k'' {}))) 0
       = Some (Unhandled (RuntimeError ''audio conversion failed: bad input''))
   \<and> (\<exists>exc. convert_audio_to_whisper_format ''/tmp/tmpb.ogg'' exit_ok {} = Inl exc)
   \<and> \<not> (\<exists>exc. convert_audio_to_whisper_format ''/tmp/tmpb.ogg'' exit_ok {''/tmp/tmpb.normalized.wav''} = Inl exc)"
proof -
  let ?s = "run [Startup] (init ''k'' {})"
  have h1: "verify_token (API_TOKEN ?s) (authorization failing_upload) = Inr ()"
    by (simp add: failing_upload_def op_defs)
  have h2: "fst (stage_and_convert failing_upload (fs ?s))
              = Inl (RuntimeError ''audio conversion failed: bad input'')"
    by (simp add: failing_upload_def op_defs)
  have h3: "queue ?s = []" "futures ?s 0 = None" "next_request ?s = 0"
    by (simp_all add: op_defs)
  have h4: "with_suffix ''/tmp/tmpb.ogg'' ''.normalized.wav'' = ''/tmp/tmpb.normalized.wav''"
    by (simp add: op_defs)
  have h5: "returncode exit_ok = 0"
    by (simp add: exit_ok_def)
  from normalization_failure_before_job
         [of "''/tmp/tmpb.ogg''" exit_ok "{}" failing_upload ?s
             "RuntimeError ''audio conversion failed: bad input''"]
       normalization_failure_before_job
         [of "''/tmp/tmpb.ogg''" exit_ok "{''/tmp/tmpb.normalized.wav''}" failing_upload ?s
             "RuntimeError ''audio conversion failed: bad input''"]
       h1 h2 h3 h4 h5
  show ?thesis by simp
qed

text \<open>
  Claim C9. For every upload that passes the token check, the staged source file does
  not exist when the request has been handled, whether the conversion returned or
  raised; the only file the request can leave behind is the normalised one, which
  differs from the source and, when the conversion returned, exists and is the audio
  file of the task put on the queue.
\<close>

theorem staged_source_deleted:
  assumes "verify_token (API_TOKEN s) (authorization u) = Inr ()"
  shows "tmp_name u \<notin> fs (step (Request u) s)
         \<and> fs (step (Request u) s) \<subseteq> insert (with_suffix (tmp_name u) ''.normalized.wav'') (fs s)
         \<and> (\<forall>exc. fst (stage_and_convert u (fs s)) = Inl exc \<longrightarrow>
               responses (step (Request u) s) (next_request s) = Some (Unhandled exc))
         \<and> (\<forall>path. fst (stage_and_convert u (fs s)) = Inr path \<longrightarrow>
               path = with_suffix (tmp_name u) ''.normalized.wav''
               \<and> path \<noteq> tmp_name u
               \<and> path \<in> fs (step (Request u) s)
               \<and> audio_path (last (queue (step (Request u) s))) = path)"
proof -
  obtain r files where sc: "stage_and_convert u (fs s) = (r, files)"
    by (cases "stage_and_convert u (fs s)")
  have files: "files = (if ffmpeg_wrote u
                        then insert (with_suffix (tmp_name u) ''.normalized.wav'') (insert (tmp_name u) (fs s))
                        else insert (tmp_name u) (fs s)) - {tmp_name u}"
    using sc by (simp add: stage_and_convert_def Let_def)
  have fs': "fs (step (Request u) s) = files"
    using assms sc by (cases r) (simp_all add: transcribe_audio_submit_def Let_def)
  have a: "tmp_name u \<notin> fs (step (Request u) s)"
    unfolding fs' files by simp
  have b: "fs (step (Request u) s) \<subseteq> insert (with_suffix (tmp_name u) ''.normalized.wav'') (fs s)"
    unfolding fs' files by auto
  have c: "responses (step (Request u) s) (next_request s) = Some (Unhandled exc)"
    if "fst (stage_and_convert u (fs s)) = Inl exc" for exc
    using that assms sc by (simp add: transcribe_audio_submit_def Let_def)
  have d: "path = with_suffix (tmp_name u) ''.normalized.wav'' \<and> path \<noteq> tmp_name u
           \<and> path \<in> fs (step (Request u) s)
           \<and> audio_path (last (queue (step (Request u) s))) = path"
    if "fst (stage_and_convert u (fs s)) = Inr path" for path
  proof -
    from that sc have r: "r = Inr path" by simp
    from sc r have conv: "convert_audio_to_whisper_format (tmp_name u) (ffmpeg u)
        (if ffmpeg_wrote u
         then insert (with_suffix (tmp_name u) ''.normalized.wav'') (insert (tmp_name u) (fs s))
         else insert (tmp_name u) (fs s)) = Inr path"
      by (simp add: stage_and_convert_def Let_def)
    then have p: "path = with_suffix (tmp_name u) ''.normalized.wav''"
      and m: "path \<in> (if ffmpeg_wrote u
         then insert (with_suffix (tmp_name u) ''.normalized.wav'') (insert (tmp_name u) (fs s))
         else insert (tmp_name u) (fs s))"
      by (auto simp: convert_audio_to_whisper_format_def Let_def split: if_splits)
    from p have ne: "path \<noteq> tmp_name u"
      using with_suffix_neq [of "tmp_name u"] by simp
    from m ne have "path \<in> files" unfolding files by simp
    moreover have "audio_path (last (queue (step (Request u) s))) = path"
      using assms sc r by (simp add: transcribe_audio_submit_def Let_def)
    ultimately show ?thesis using p ne fs' by simp
  qed
  from a b c d show ?thesis by blast
qed

theorem staged_source_deleted_witness:
  "''/tmp/tmpa.mp3'' \<notin> fs (step (Request sample_upload) (init ''k'' {}))
   \<and> ''/tmp/tmpa.normalized.wav'' \<in> fs (step (Request sample_upload) (init ''k'' {}))
   \<and> ''/tmp/tmpb.ogg'' \<notin> fs (step (Request failing_upload) (init ''k'' {}))
   \<and> responses (step (Request failing_upload) (init ''k'' {})) 0
       = Some (Unhandled (RuntimeError ''audio conversion failed: bad input''))"
proof -
  let ?s = "init ''k'' {}"
  have h1: "verify_token (API_TOKEN ?s) (authorization sample_upload) = Inr ()"
    by (simp add: sample_defs op_defs)
  have h2: "verify_token (API_TOKEN ?s) (authorization failing_upload) = Inr ()"
    by (simp add: failing_upload_def op_defs)
  have h3: "fst (stage_and_convert sample_upload (fs ?s)) = Inr ''/tmp/tmpa.normalized.wav''"
    by (simp add: sample_defs op_defs)
  have h4: "fst (stage_and_convert failing_upload (fs ?s))
              = Inl (RuntimeError ''audio conversion failed: bad input'')"
    by (simp add: failing_upload_def op_defs)
  have h5: "tmp_name sample_upload = ''/tmp/tmpa.mp3''" "tmp_name failing_upload = ''/tmp/tmpb.ogg''"
    "next_request ?s = 0"
    by (simp_all add: sample_defs failing_upload_def op_defs)
  have h6: "with_suffix ''/tmp/tmpa.mp3'' ''.normalized.wav'' = ''/tmp/tmpa.normalized.wav''"
    by (simp add: op_defs)
  from staged_source_deleted [OF h1] staged_source_deleted [OF h2] h3 h4 h5 h6
  show ?thesis by simp
qed

lemma resolve_done: "fut_done f \<Longrightarrow> resolve f r = f"
  by (simp add: resolve_def split: sum.splits)

lemma done_future_stable_step:
  assumes "inv s" and "futures s n = Some f" and "fut_done f"
  shows "futures (step e s) n = Some f"
proof (cases e)
  case Startup
  with assms show ?thesis by (simp add: startup_event_def)
next
  case Shutdown
  with assms show ?thesis
    by (simp add: shutdown_event_def worker_finally_def Let_def split: option.splits wstate.splits)
next
  case (Request u)
  from assms have "n \<noteq> next_request s"
    using fresh_future [of s n f] by (simp add: inv_def)
  with assms Request show ?thesis
    by (simp add: transcribe_audio_submit_def Let_def split: sum.splits prod.splits)
next
  case (Deadline m)
  with assms show ?thesis
    by (auto simp: deadline_def split: option.splits fut.splits)
next
  case (Worker_get w)
  with assms show ?thesis
    by (simp add: worker_get_def split: list.splits)
next
  case (Worker_done w p a)
  with assms show ?thesis
    by (auto simp: worker_done_def worker_finally_def Let_def resolve_done
             split: option.splits wstate.splits)
qed

lemma done_future_stable_run:
  "inv s \<Longrightarrow> futures s n = Some f \<Longrightarrow> fut_done f \<Longrightarrow> futures (run evs s) n = Some f"
  by (induction evs arbitrary: s) (simp_all add: inv_step done_future_stable_step)

lemma resolution_by_worker:
  assumes "\<not> (\<exists>g. futures s n = Some g \<and> resolved g)"
    and "futures (step e s) n = Some g'" and "resolved g'"
  shows "\<exists>w p a task. e = Worker_done w p a \<and> w < length (workers s)
           \<and> workers s ! w = Running task \<and> future task = n \<and> futures s n = Some Pending
           \<and> g' = (case run_whisper p a of Inr text \<Rightarrow> Finished text | Inl exc \<Rightarrow> Failed exc)"
proof (cases e)
  case Startup
  with assms show ?thesis by (auto simp: startup_event_def split: if_splits)
next
  case Shutdown
  with assms show ?thesis
    by (auto simp: shutdown_event_def worker_finally_def Let_def
             split: option.splits wstate.splits if_splits)
next
  case (Request u)
  with assms show ?thesis
    by (auto simp: transcribe_audio_submit_def Let_def split: sum.splits prod.splits if_splits)
next
  case (Deadline m)
  with assms show ?thesis
    by (auto simp: deadline_def split: option.splits fut.splits if_splits)
next
  case (Worker_get w)
  with assms show ?thesis
    by (auto simp: worker_get_def split: list.splits if_splits)
next
  case (Worker_done w p a)
  show ?thesis
  proof (cases "w < length (workers s)")
    case False
    with assms Worker_done show ?thesis by (simp add: worker_done_def)
  next
    case True
    show ?thesis
    proof (cases "workers s ! w")
      case (Running task)
      show ?thesis
      proof (cases "futures s (future task)")
        case None
        with assms Worker_done True Running show ?thesis
          by (auto simp: worker_done_def worker_finally_def Let_def split: if_splits)
      next
        case (Some f)
        have fs': "futures (step e s) = (futures s)(future task \<mapsto> resolve f (run_whisper p a))"
          using Worker_done True Running Some
          by (simp add: worker_done_def worker_finally_def Let_def)
        show ?thesis
        proof (cases "future task = n")
          case False
          with fs' assms show ?thesis by auto
        next
          case eq: True
          with fs' assms(2) have g': "g' = resolve f (run_whisper p a)" by simp
          have "f = Pending"
          proof (rule ccontr)
            assume "f \<noteq> Pending"
            then have "fut_done f" by (cases f) simp_all
            with g' have "g' = f" by (simp add: resolve_done)
            with assms(1,3) Some eq show False by simp
          qed
          with g' Some eq True Running Worker_done show ?thesis
            by (auto simp: resolve_def split: sum.splits)
        qed
      qed
    qed (use assms Worker_done True in \<open>simp_all add: worker_done_def\<close>)
  qed
qed

text \<open>
  Claim C1. In every reachable state a future that is done keeps its state through
  every later run, so it is resolved at most once and never with both a result and an
  exception. A step that resolves a future is the worker finishing the task that holds
  it, the future was pending, and the value is the result or the exception of
  \<open>run_whisper\<close>. Resolving a future that is done, cancelled at the deadline
  included, changes nothing.
\<close>

theorem completion_resolved_once:
  "(futures (run evs (init token files)) n = Some f \<and> fut_done f \<longrightarrow>
      futures (run later (run evs (init token files))) n = Some f)
   \<and> (\<not> (\<exists>g. futures s n = Some g \<and> resolved g)
        \<and> futures (step e s) n = Some g' \<and> resolved g' \<longrightarrow>
      (\<exists>w p a task. e = Worker_done w p a \<and> w < length (workers s)
           \<and> workers s ! w = Running task \<and> future task = n \<and> futures s n = Some Pending
           \<and> g' = (case run_whisper p a of Inr text \<Rightarrow> Finished text | Inl exc \<Rightarrow> Failed exc)))
   \<and> (fut_done f \<longrightarrow> resolve f r = f)"
  using done_future_stable_run [OF inv_reachable] resolution_by_worker resolve_done
  by blast

theorem completion_resolved_once_witness:
  "futures (run [Deadline 0, Worker_done 0 exit_failed Missing, Shutdown]
      (run [Startup, Request sample_upload, Worker_get 0, Worker_done 0 exit_ok sample_json]
         (init ''k'' {}))) 0 = Some (Finished ''hi'')
   \<and> (\<exists>w p a task.
         Worker_done 0 exit_ok sample_json = Worker_done w p a
         \<and> workers (run [Startup, Request sample_upload, Worker_get 0] (init ''k'' {})) ! w = Running task
         \<and> future task = 0)
   \<and> resolve Cancelled (Inr ''late'') = Cancelled"
proof -
  let ?s = "run [Startup, Request sample_upload, Worker_get 0] (init ''k'' {})"
  let ?evs = "[Startup, Request sample_upload, Worker_get 0, Worker_done 0 exit_ok sample_json]"
  have h1: "futures (run ?evs (init ''k'' {})) 0 = Some (Finished ''hi'') \<and> fut_done (Finished ''hi'')"
    by (simp add: sample_defs op_defs)
  have h2: "\<not> (\<exists>g. futures ?s 0 = Some g \<and> resolved g)"
    by (simp add: sample_defs op_defs)
  have h3: "futures (step (Worker_done 0 exit_ok sample_json) ?s) 0 = Some (Finished ''hi'')
            \<and> resolved (Finished ''hi'')"
    by (simp add: sample_defs op_defs)
  have h4: "fut_done Cancelled" by simp
  from completion_resolved_once
         [of ?evs "''k''" "{}" 0 "Finished ''hi''"
             "[Deadline 0, Worker_done 0 exit_failed Missing, Shutdown]"
             ?s "Worker_done 0 exit_ok sample_json" "Finished ''hi''" "Inr ''late''"]
       completion_resolved_once
         [of ?evs "''k''" "{}" 0 Cancelled "[]" ?s "Startup" "Finished ''hi''" "Inr ''late''"]
       h1 h2 h3 h4
  show ?thesis by blast
qed

lemma get_changes_log:
  assumes "get_log (step (Worker_get w) s) \<noteq> get_log s"
  shows "w < length (workers s) \<and> workers s ! w = Waiting \<and> queue s \<noteq> []
         \<and> get_log (step (Worker_get w) s) = get_log s @ [hd (queue s)]
         \<and> queue (step (Worker_get w) s) = tl (queue s)
         \<and> workers (step (Worker_get w) s) = (workers s)[w := Running (hd (queue s))]"
  using assms by (auto simp: worker_get_def split: list.splits if_splits)

lemma waiting_inv:
  assumes "inv s" and "w < length (workers s)" and "workers s ! w = Waiting"
  shows "workers s = [Waiting] \<and> w = 0 \<and> (\<forall>t \<in> set (get_log s). settled s t)
         \<and> unfinished_tasks s = length (queue s)"
  using assms by (auto simp: inv_def split: list.splits wstate.splits)

lemma request_appends:
  "queue (step (Request u) s) = queue s \<and> put_log (step (Request u) s) = put_log s
   \<or> (\<exists>task. queue (step (Request u) s) = queue s @ [task]
         \<and> put_log (step (Request u) s) = put_log s @ [task])"
  by (auto simp: transcribe_audio_submit_def Let_def split: sum.splits prod.splits)

text \<open>
  Claim C2. In every reachable state the tasks put on the queue are those the worker
  has taken, in the same order, followed by those still queued; a request adds at the
  back; at most one worker runs a task; and when a worker takes a task it takes the
  oldest one, no task is running, and every task taken before is settled: its future
  is resolved or cancelled.
\<close>

theorem fifo_one_at_a_time:
  fixes evs token files
  defines "s \<equiv> run evs (init token files)"
  shows "put_log s = get_log s @ queue s
   \<and> length (filter is_running (workers s)) \<le> 1
   \<and> (queue (step (Request u) s) = queue s \<and> put_log (step (Request u) s) = put_log s
       \<or> (\<exists>task. queue (step (Request u) s) = queue s @ [task]
             \<and> put_log (step (Request u) s) = put_log s @ [task]))
   \<and> (get_log (step (Worker_get w) s) \<noteq> get_log s \<longrightarrow>
         queue s \<noteq> []
         \<and> get_log (step (Worker_get w) s) = get_log s @ [hd (queue s)]
         \<and> queue (step (Worker_get w) s) = tl (queue s)
         \<and> filter is_running (workers s) = []
         \<and> (\<forall>t \<in> set (get_log s). settled s t))"
proof -
  have I: "inv s" unfolding s_def by (rule inv_reachable)
  then have a: "put_log s = get_log s @ queue s" by (simp add: inv_def)
  from workers_reachable [OF I] have "length (workers s) \<le> 1" by blast
  then have b: "length (filter is_running (workers s)) \<le> 1"
    using length_filter_le [of is_running "workers s"] by linarith
  have d: "queue s \<noteq> []
         \<and> get_log (step (Worker_get w) s) = get_log s @ [hd (queue s)]
         \<and> queue (step (Worker_get w) s) = tl (queue s)
         \<and> filter is_running (workers s) = []
         \<and> (\<forall>t \<in> set (get_log s). settled s t)"
    if ch: "get_log (step (Worker_get w) s) \<noteq> get_log s"
  proof -
    from get_changes_log [OF ch] waiting_inv [OF I, of w]
    show ?thesis by simp
  qed
  from a b d request_appends [of u s] show ?thesis by blast
qed

theorem fifo_one_at_a_time_witness:
  "put_log (run [Startup, Request sample_upload, Request second_upload, Worker_get 0,
                 Worker_done 0 exit_ok sample_json] (init ''k'' {}))
     = [sample_task, second_task]
   \<and> get_log (step (Worker_get 0)
        (run [Startup, Request sample_upload, Request second_upload, Worker_get 0,
              Worker_done 0 exit_ok sample_json] (init ''k'' {})))
     = [sample_task, second_task]
   \<and> settled (run [Startup, Request sample_upload, Request second_upload, Worker_get 0,
                 Worker_done 0 exit_ok sample_json] (init ''k'' {})) sample_task"
proof -
  let ?evs = "[Startup, Request sample_upload, Request second_upload, Worker_get 0,
               Worker_done 0 exit_ok sample_json]"
  let ?s = "run ?evs (init ''k'' {})"
  have h1: "get_log ?s = [sample_task]"
    by (simp add: sample_defs second_upload_def op_defs)
  have h2: "queue ?s = [second_task]"
    by (simp add: sample_defs second_upload_def second_task_def op_defs)
  have h3: "get_log (step (Worker_get 0) ?s) \<noteq> get_log ?s"
    by (simp add: sample_defs second_upload_def op_defs)
  from fifo_one_at_a_time [of ?evs "''k''" "{}" second_upload 0] h1 h2 h3
  show ?thesis by (simp del: run.simps step.simps)
qed

lemma rev_split: "xs = rev (dropWhile P (rev xs)) @ rev (takeWhile P (rev xs))"
  by (metis rev_append rev_rev_ident takeWhile_dropWhile_id)

lemma strip_decomp:
  "\<exists>l r. text = l @ strip text @ r \<and> (\<forall>c \<in> set l. isspace c) \<and> (\<forall>c \<in> set r. isspace c)"
proof -
  let ?m = "dropWhile isspace text"
  let ?l = "takeWhile isspace text"
  let ?r = "rev (takeWhile isspace (rev ?m))"
  have m: "?m = strip text @ ?r"
    unfolding strip_def rstrip_def lstrip_def by (rule rev_split)
  have "text = ?l @ ?m" by simp
  with m have "text = ?l @ strip text @ ?r" by simp
  moreover have "\<forall>c \<in> set ?l. isspace c" by (auto dest: set_takeWhileD)
  moreover have "\<forall>c \<in> set ?r. isspace c" by (auto dest: set_takeWhileD)
  ultimately show ?thesis by blast
qed

lemma strip_ends:
  assumes "strip text \<noteq> []"
  shows "\<not> isspace (hd (strip text)) \<and> \<not> isspace (last (strip text))"
proof -
  let ?m = "dropWhile isspace text"
  let ?d = "dropWhile isspace (rev ?m)"
  from assms have d: "?d \<noteq> []" by (simp add: strip_def rstrip_def lstrip_def)
  have st: "strip text = rev ?d" by (simp add: strip_def rstrip_def lstrip_def)
  from d have "\<not> isspace (hd ?d)" by (rule hd_dropWhile)
  with d st have la: "\<not> isspace (last (strip text))" by (simp add: last_rev)
  have m: "?m = strip text @ rev (takeWhile isspace (rev ?m))"
    unfolding strip_def rstrip_def lstrip_def by (rule rev_split)
  with assms have mne: "?m \<noteq> []" by (metis Nil_is_append_conv)
  from m assms have "hd ?m = hd (strip text)" by (metis hd_append2)
  moreover from mne have "\<not> isspace (hd ?m)" by (rule hd_dropWhile)
  ultimately show ?thesis using la by simp
qed

lemma run_whisper_text:
  "returncode p = 0 \<Longrightarrow> map_of items ''text'' = Some (JStr text) \<Longrightarrow>
     run_whisper p (Parsed (JObj items)) = Inr (strip text)"
  by (simp add: run_whisper_def)

lemma worker_done_running:
  assumes "w < length (workers s)" and "workers s ! w = Running task"
    and "futures s (future task) = Some f"
  shows "futures (step (Worker_done w p a) s)
           = (futures s)(future task \<mapsto> resolve f (run_whisper p a))"
    and "responses (step (Worker_done w p a) s)
           = (if fut_done f then responses s
              else (responses s)(future task \<mapsto>
                     transcribe_audio_response (task_id task) (waited_of (run_whisper p a))))"
    and "fs (step (Worker_done w p a) s) = fs s - {audio_path task}"
    and "queue (step (Worker_done w p a) s) = queue s"
    and "get_log (step (Worker_done w p a) s) = get_log s"
    and "0 < unfinished_tasks s \<Longrightarrow>
           workers (step (Worker_done w p a) s) = (workers s)[w := Waiting]"
  using assms by (simp_all add: worker_done_def worker_finally_def Let_def)

text \<open>
  Claim C5, as amended. When the transcription process exits with status 0 and its
  JSON output is an object whose \<open>text\<close> is a string, and the future of the task
  is still pending when the worker finishes (the deadline of the handler has not
  passed), the handler returns the task identifier with exactly that text stripped of
  the whitespace around it, and the audio file of the task is gone. The stripped text
  is the text without a whitespace prefix and a whitespace suffix, and it neither
  starts nor ends with whitespace.
\<close>

theorem success_returns_trimmed_text:
  assumes "w < length (workers s)" and "workers s ! w = Running task"
    and "futures s (future task) = Some Pending"
    and "returncode p = 0" and "map_of items ''text'' = Some (JStr text)"
  shows "responses (step (Worker_done w p (Parsed (JObj items))) s) (future task)
           = Some (TranscriptionResponse (task_id task) (strip text))
         \<and> futures (step (Worker_done w p (Parsed (JObj items))) s) (future task)
           = Some (Finished (strip text))
         \<and> audio_path task \<notin> fs (step (Worker_done w p (Parsed (JObj items))) s)
         \<and> (\<exists>l r. text = l @ strip text @ r
               \<and> (\<forall>c \<in> set l. isspace c) \<and> (\<forall>c \<in> set r. isspace c))
         \<and> (strip text \<noteq> [] \<longrightarrow>
               \<not> isspace (hd (strip text)) \<and> \<not> isspace (last (strip text)))"
  using worker_done_running [OF assms(1) assms(2) assms(3), of p "Parsed (JObj items)"]
        run_whisper_text [OF assms(4) assms(5)] strip_decomp [of "text"] strip_ends [of "text"]
  by (simp add: resolve_def)

theorem success_returns_trimmed_text_witness:
  "responses (step (Worker_done 0 exit_ok (Parsed (JObj [(''text'', JStr '' hi '')])))
      (run [Startup, Request sample_upload, Worker_get 0] (init ''k'' {}))) 0
     = Some (TranscriptionResponse ''id0'' ''hi'')
   \<and> ''/tmp/tmpa.normalized.wav'' \<notin>
       fs (step (Worker_done 0 exit_ok (Parsed (JObj [(''text'', JStr '' hi '')])))
            (run [Startup, Request sample_upload, Worker_get 0] (init ''k'' {})))
   \<and> ''/tmp/tmpa.normalized.wav'' \<in>
       fs (run [Startup, Request sample_upload, Worker_get 0] (init ''k'' {}))"
proof -
  let ?s = "run [Startup, Request sample_upload, Worker_get 0] (init ''k'' {})"
  have h1: "0 < length (workers ?s)"
    by (simp add: sample_defs op_defs)
  have h2: "workers ?s ! 0 = Running sample_task"
    by (simp add: sample_defs op_defs)
  have h3: "futures ?s (future sample_task) = Some Pending"
    by (simp add: sample_defs op_defs)
  have h4: "returncode exit_ok = 0"
    by (simp add: exit_ok_def)
  have h5: "map_of [(''text'', JStr '' hi '')] ''text'' = Some (JStr '' hi '')"
    by simp
  have h6: "strip '' hi '' = ''hi''"
    by (simp add: op_defs)
  have h7: "future sample_task = 0" "task_id sample_task = ''id0''"
    "audio_path sample_task = ''/tmp/tmpa.normalized.wav''"
    by (simp_all add: sample_defs)
  have h8: "''/tmp/tmpa.normalized.wav'' \<in> fs ?s"
    by (simp add: sample_defs op_defs)
  from success_returns_trimmed_text [OF h1 h2 h3 h4 h5] h6 h7 h8
  show ?thesis by (simp del: run.simps step.simps)
qed

text \<open>
  Claim C5 as stated fails when the deadline passes first: the process succeeds with
  text \<open>hi\<close>, yet the handler has returned status 504 and never returns the text.
\<close>

theorem success_after_deadline_counterexample:
  "run_whisper exit_ok sample_json = Inr ''hi''
   \<and> responses (run [Startup, Request sample_upload, Worker_get 0, Deadline 0,
                     Worker_done 0 exit_ok sample_json] (init ''k'' {})) 0
       = Some (HTTPException 504 ''Transcription timed out'')
   \<and> responses (run [Startup, Request sample_upload, Worker_get 0, Deadline 0,
                     Worker_done 0 exit_ok sample_json] (init ''k'' {})) 0
       \<noteq> Some (TranscriptionResponse ''id0'' ''hi'')"
  by (simp add: sample_defs op_defs)

lemma exit_failed_raises:
  "run_whisper exit_failed a = Inl (RuntimeError ''whisper.cpp failed with code 1: boom'')"
  by (cases a) code_simp+

lemma run_whisper_failures:
  "(returncode p \<noteq> 0 \<longrightarrow> (\<exists>m. run_whisper p a = Inl (RuntimeError m) \<and> m \<noteq> []))
   \<and> (returncode p = 0 \<longrightarrow>
         run_whisper p Missing = Inl (RuntimeError ''whisper.cpp did not create JSON output''))
   \<and> (returncode p = 0 \<longrightarrow> run_whisper p (Unparsable m') = Inl (ValueError m'))
   \<and> (returncode p = 0 \<and> (\<forall>t. payload_get j ''text'' \<noteq> Inr (JStr t)) \<longrightarrow>
         (\<exists>exc. run_whisper p (Parsed j) = Inl exc))"
proof -
  have "\<exists>exc. run_whisper p (Parsed j) = Inl exc"
    if "returncode p = 0" and "\<forall>t. payload_get j ''text'' \<noteq> Inr (JStr t)"
  proof (cases "payload_get j ''text''")
    case (Inl e)
    with that show ?thesis by (simp add: run_whisper_def)
  next
    case (Inr v)
    with that show ?thesis by (cases v) (simp_all add: run_whisper_def)
  qed
  then show ?thesis by (simp add: run_whisper_def)
qed

lemma running_inv:
  assumes "inv s" and "w < length (workers s)" and "workers s ! w = Running task"
  shows "workers s = [Running task] \<and> w = 0 \<and> 0 < unfinished_tasks s
         \<and> (\<exists>f. futures s (future task) = Some f)"
proof -
  from assms have ws: "workers s = [Running task]" and w0: "w = 0"
    by (auto simp: inv_def split: list.splits wstate.splits)
  from assms(1) ws have facts: "put_log s = get_log s @ queue s" "get_log s \<noteq> []"
    "last (get_log s) = task" "unfinished_tasks s = length (queue s) + 1"
    "\<forall>t \<in> set (put_log s). futures s (future t) \<noteq> None"
    by (auto simp: inv_def)
  from facts(1,2,3) have "task \<in> set (put_log s)"
    by (metis Un_iff last_in_set set_append)
  with facts(5) have "futures s (future task) \<noteq> None" by blast
  with ws w0 facts(4) show ?thesis by auto
qed

lemma no_crash:
  assumes "inv s" and "w < length (workers s)"
  shows "workers s ! w \<noteq> Crashed exc"
  using assms by (auto simp: inv_def split: list.splits wstate.splits)

lemma worker_get_waiting:
  assumes "w < length (workers s)" and "workers s ! w = Waiting" and "queue s = task # rest"
  shows "workers (step (Worker_get w) s) = (workers s)[w := Running task]"
    and "queue (step (Worker_get w) s) = rest"
    and "get_log (step (Worker_get w) s) = get_log s @ [task]"
    and "fs (step (Worker_get w) s) = fs s"
    and "futures (step (Worker_get w) s) = futures s"
  using assms by (simp_all add: worker_get_def)

text \<open>
  Claim C4, as amended. In every reachable state, when \<open>run_whisper\<close> raises for
  the task the worker runs, the worker is back at \<open>queue.get()\<close> afterwards and
  takes the oldest queued task next; the exception becomes the state of the future and
  the status 500 response of the handler when the future was pending, and is dropped,
  leaving future and responses as they were, when the future was already cancelled;
  the audio file is gone; and no later state has a crashed worker. A non-zero exit, a
  missing output file, unparsable output and output without a string \<open>text\<close> all
  make \<open>run_whisper\<close> raise, the first with a non-empty message.
\<close>

theorem failure_captured_worker_continues:
  fixes evs token files
  defines "s \<equiv> run evs (init token files)"
  assumes "w < length (workers s)" and "workers s ! w = Running task"
    and "run_whisper p a = Inl exc"
  shows "workers (step (Worker_done w p a) s) ! w = Waiting
   \<and> (\<exists>f. futures s (future task) = Some f
         \<and> futures (step (Worker_done w p a) s) (future task)
             = Some (if fut_done f then f else Failed exc))
   \<and> (futures s (future task) = Some Pending \<longrightarrow>
         futures (step (Worker_done w p a) s) (future task) = Some (Failed exc)
         \<and> responses (step (Worker_done w p a) s) (future task)
             = Some (HTTPException 500 (exn_str exc)))
   \<and> (futures s (future task) = Some Cancelled \<longrightarrow>
         futures (step (Worker_done w p a) s) (future task) = Some Cancelled
         \<and> responses (step (Worker_done w p a) s) = responses s)
   \<and> audio_path task \<notin> fs (step (Worker_done w p a) s)
   \<and> queue (step (Worker_done w p a) s) = queue s
   \<and> (queue s \<noteq> [] \<longrightarrow>
         workers (step (Worker_get w) (step (Worker_done w p a) s)) ! w = Running (hd (queue s)))
   \<and> (\<forall>later w' e. w' < length (workers (run later (step (Worker_done w p a) s))) \<longrightarrow>
         workers (run later (step (Worker_done w p a) s)) ! w' \<noteq> Crashed e)
   \<and> (returncode q \<noteq> 0 \<longrightarrow> (\<exists>m. run_whisper q b = Inl (RuntimeError m) \<and> m \<noteq> []))
   \<and> (returncode q = 0 \<longrightarrow>
         run_whisper q Missing = Inl (RuntimeError ''whisper.cpp did not create JSON output''))
   \<and> (returncode q = 0 \<longrightarrow> run_whisper q (Unparsable m') = Inl (ValueError m'))
   \<and> (returncode q = 0 \<and> (\<forall>t. payload_get j ''text'' \<noteq> Inr (JStr t)) \<longrightarrow>
         (\<exists>exc'. run_whisper q (Parsed j) = Inl exc'))"
proof -
  let ?s' = "step (Worker_done w p a) s"
  have I: "inv s" unfolding s_def by (rule inv_reachable)
  from running_inv [OF I assms(2) assms(3)] obtain f
    where ws: "workers s = [Running task]" and w0: "w = 0" and un: "0 < unfinished_tasks s"
      and f: "futures s (future task) = Some f" by blast
  note wd = worker_done_running [OF assms(2) assms(3) f, of p a]
  from wd(6) [OF un] ws w0 have ws': "workers ?s' = [Waiting]" by simp
  then have a: "workers ?s' ! w = Waiting" using w0 by simp
  have b: "futures ?s' (future task) = Some (if fut_done f then f else Failed exc)"
    using wd(1) assms(4) by (simp add: resolve_def)
  have c: "futures ?s' (future task) = Some (Failed exc)
           \<and> responses ?s' (future task) = Some (HTTPException 500 (exn_str exc))"
    if "futures s (future task) = Some Pending"
    using that f b wd(2) assms(4) by simp
  have d: "futures ?s' (future task) = Some Cancelled \<and> responses ?s' = responses s"
    if "futures s (future task) = Some Cancelled"
    using that f b wd(2) by simp
  have e: "audio_path task \<notin> fs ?s'" using wd(3) by simp
  have g: "workers (step (Worker_get w) ?s') ! w = Running (hd (queue s))" if "queue s \<noteq> []"
  proof -
    from that obtain t ts where q: "queue s = t # ts" by (cases "queue s") auto
    with wd(4) have "queue ?s' = t # ts" by simp
    from worker_get_waiting(1) [OF _ a this] ws' w0 q show ?thesis by simp
  qed
  have I': "inv (run later ?s')" for later
    by (rule inv_run [OF inv_step [OF I]])
  have h: "workers (run later ?s') ! w' \<noteq> Crashed e"
    if "w' < length (workers (run later ?s'))" for later w' e
    using no_crash [OF I' that] .
  from a b f c d e wd(4) g h
  have "workers ?s' ! w = Waiting
   \<and> (\<exists>f. futures s (future task) = Some f
         \<and> futures ?s' (future task) = Some (if fut_done f then f else Failed exc))
   \<and> (futures s (future task) = Some Pending \<longrightarrow>
         futures ?s' (future task) = Some (Failed exc)
         \<and> responses ?s' (future task) = Some (HTTPException 500 (exn_str exc)))
   \<and> (futures s (future task) = Some Cancelled \<longrightarrow>
         futures ?s' (future task) = Some Cancelled \<and> responses ?s' = responses s)
   \<and> audio_path task \<notin> fs ?s'
   \<and> queue ?s' = queue s
   \<and> (queue s \<noteq> [] \<longrightarrow> workers (step (Worker_get w) ?s') ! w = Running (hd (queue s)))
   \<and> (\<forall>later w' e. w' < length (workers (run later ?s')) \<longrightarrow>
         workers (run later ?s') ! w' \<noteq> Crashed e)"
    by blast
  with run_whisper_failures [of q b m' j] show ?thesis by blast
qed

theorem failure_captured_worker_continues_witness:
  "futures (step (Worker_done 0 exit_failed Missing)
      (run [Startup, Request sample_upload, Request second_upload, Worker_get 0] (init ''k'' {}))) 0
     = Some (Failed (RuntimeError ''whisper.cpp failed with code 1: boom''))
   \<and> responses (step (Worker_done 0 exit_failed Missing)
      (run [Startup, Request sample_upload, Request second_upload, Worker_get 0] (init ''k'' {}))) 0
     = Some (HTTPException 500 ''whisper.cpp failed with code 1: boom'')
   \<and> workers (step (Worker_get 0) (step (Worker_done 0 exit_failed Missing)
      (run [Startup, Request sample_upload, Request second_upload, Worker_get 0] (init ''k'' {})))) ! 0
     = Running second_task
   \<and> (\<exists>m. run_whisper exit_failed sample_json = Inl (RuntimeError m) \<and> m \<noteq> [])"
proof -
  let ?evs = "[Startup, Request sample_upload, Request second_upload, Worker_get 0]"
  let ?s = "run ?evs (init ''k'' {})"
  have h1: "0 < length (workers ?s)"
    by (simp add: sample_defs second_upload_def op_defs)
  have h2: "workers ?s ! 0 = Running sample_task"
    by (simp add: sample_defs second_upload_def op_defs)
  have h3: "run_whisper exit_failed Missing = Inl (RuntimeError ''whisper.cpp failed with code 1: boom'')"
    by (rule exit_failed_raises)
  have h4: "futures ?s (future sample_task) = Some Pending"
    by (simp add: sample_defs second_upload_def op_defs)
  have h5: "queue ?s = [second_task]"
    by (simp add: sample_defs second_upload_def second_task_def op_defs)
  have h6: "future sample_task = 0" "returncode exit_failed \<noteq> 0"
    by (simp_all add: sample_defs)
  from failure_captured_worker_continues [OF h1 h2 h3, of exit_failed sample_json] h4 h5 h6
  show ?thesis by (simp del: run.simps step.simps)
qed

text \<open>
  Claim C4 as stated fails when the deadline passes first: the exception of the task is
  not delivered through its future, which stays cancelled, and the handler has
  returned status 504.
\<close>

theorem failure_after_deadline_counterexample:
  "run_whisper exit_failed Missing = Inl (RuntimeError ''whisper.cpp failed with code 1: boom'')
   \<and> workers (run [Startup, Request sample_upload, Worker_get 0, Deadline 0] (init ''k'' {})) ! 0
       = Running sample_task
   \<and> futures (run [Startup, Request sample_upload, Worker_get 0, Deadline 0,
                   Worker_done 0 exit_failed Missing] (init ''k'' {})) 0
       = Some Cancelled
   \<and> futures (run [Startup, Request sample_upload, Worker_get 0, Deadline 0,
                   Worker_done 0 exit_failed Missing] (init ''k'' {})) 0
       \<noteq> Some (Failed (RuntimeError ''whisper.cpp failed with code 1: boom''))
   \<and> responses (run [Startup, Request sample_upload, Worker_get 0, Deadline 0,
                     Worker_done 0 exit_failed Missing] (init ''k'' {})) 0
       = Some (HTTPException 504 ''Transcription timed out'')"
  by (simp add: exit_failed_raises worker_done_def) (simp add: sample_defs op_defs)

lemma serve_drains:
  "inv s \<Longrightarrow> w < length (workers s) \<Longrightarrow> workers s ! w = Waiting \<Longrightarrow>
   length outs = length (queue s) \<Longrightarrow>
     queue (run (serve w outs) s) = []
     \<and> workers (run (serve w outs) s) = workers s
     \<and> get_log (run (serve w outs) s) = get_log s @ queue s
     \<and> fs (run (serve w outs) s) = fs s - audio_path ` set (queue s)"
proof (induction outs arbitrary: s)
  case Nil
  then show ?case by simp
next
  case (Cons pa outs)
  obtain p a where pa: "pa = (p, a)" by (cases pa)
  from Cons.prems(4) obtain task rest where q: "queue s = task # rest"
    by (cases "queue s") auto
  let ?s1 = "step (Worker_get w) s"
  let ?s2 = "step (Worker_done w p a) ?s1"
  from waiting_inv [OF Cons.prems(1,2,3)] have ws: "workers s = [Waiting]" and w0: "w = 0"
    by simp_all
  note g = worker_get_waiting [OF Cons.prems(2,3) q]
  have I1: "inv ?s1" by (rule inv_step [OF Cons.prems(1)])
  have r1: "w < length (workers ?s1)" "workers ?s1 ! w = Running task"
    using g(1) ws w0 by simp_all
  from running_inv [OF I1 r1] obtain f
    where un: "0 < unfinished_tasks ?s1" and f: "futures ?s1 (future task) = Some f"
    by blast
  note d = worker_done_running [OF r1 f, of p a]
  have I2: "inv ?s2" by (rule inv_step [OF I1])
  have ws2: "workers ?s2 = workers s"
    using d(6) [OF un] g(1) ws w0 by simp
  have q2: "queue ?s2 = rest" using d(4) g(2) by simp
  have "queue (run (serve w outs) ?s2) = []
     \<and> workers (run (serve w outs) ?s2) = workers ?s2
     \<and> get_log (run (serve w outs) ?s2) = get_log ?s2 @ queue ?s2
     \<and> fs (run (serve w outs) ?s2) = fs ?s2 - audio_path ` set (queue ?s2)"
  proof (rule Cons.IH [OF I2])
    show "w < length (workers ?s2)" using ws2 Cons.prems(2) by simp
    show "workers ?s2 ! w = Waiting" using ws2 Cons.prems(3) by simp
    show "length outs = length (queue ?s2)" using q2 q Cons.prems(4) by simp
  qed
  moreover have "run (serve w (pa # outs)) s = run (serve w outs) ?s2"
    using pa by simp
  moreover have "get_log ?s2 = get_log s @ [task]" using d(5) g(3) by simp
  moreover have "fs ?s2 = fs s - {audio_path task}" using d(3) g(4) by simp
  ultimately show ?case using ws2 q2 q by auto
qed

lemma put_log_grows_step: "set (put_log s) \<subseteq> set (put_log (step e s))"
proof (cases e)
  case (Request u)
  then show ?thesis using request_appends [of u s] by auto
next
  case (Worker_done w p a)
  then show ?thesis
    by (auto simp: worker_done_def worker_finally_def Let_def
             split: wstate.splits option.splits prod.splits)
qed (auto simp: startup_event_def shutdown_event_def worker_finally_def Let_def deadline_def
          worker_get_def split: option.splits wstate.splits fut.splits list.splits)

lemma put_log_grows_run: "set (put_log s) \<subseteq> set (put_log (run evs s))"
proof (induction evs arbitrary: s)
  case Nil
  show ?case by simp
next
  case (Cons e evs)
  from put_log_grows_step [of s e] Cons [of "step e s"] show ?case by auto
qed

lemma deadline_pending:
  assumes "futures s n = Some Pending"
  shows "step (Deadline n) s
           = s\<lparr> futures := (futures s)(n \<mapsto> Cancelled),
                responses := (responses s)(n \<mapsto> HTTPException 504 ''Transcription timed out'') \<rparr>"
  using assms by (simp add: deadline_def)

lemma finish_then_serve:
  assumes "inv s" and "w < length (workers s)" and "workers s ! w = Running task"
    and "length outs = length (queue s)"
  shows "queue (run (Worker_done w p a # serve w outs) s) = []
     \<and> workers (run (Worker_done w p a # serve w outs) s) ! w = Waiting
     \<and> get_log (run (Worker_done w p a # serve w outs) s) = get_log s @ queue s
     \<and> fs (run (Worker_done w p a # serve w outs) s)
         = fs s - {audio_path task} - audio_path ` set (queue s)"
proof -
  let ?s1 = "step (Worker_done w p a) s"
  from running_inv [OF assms(1,2,3)] obtain f
    where ws: "workers s = [Running task]" and w0: "w = 0" and un: "0 < unfinished_tasks s"
      and f: "futures s (future task) = Some f" by blast
  note d = worker_done_running [OF assms(2,3) f, of p a]
  have I1: "inv ?s1" by (rule inv_step [OF assms(1)])
  have ws1: "workers ?s1 = [Waiting]" using d(6) [OF un] ws w0 by simp
  have "queue (run (serve w outs) ?s1) = []
     \<and> workers (run (serve w outs) ?s1) = workers ?s1
     \<and> get_log (run (serve w outs) ?s1) = get_log ?s1 @ queue ?s1
     \<and> fs (run (serve w outs) ?s1) = fs ?s1 - audio_path ` set (queue ?s1)"
  proof (rule serve_drains [OF I1])
    show "w < length (workers ?s1)" using ws1 w0 by simp
    show "workers ?s1 ! w = Waiting" using ws1 w0 by simp
    show "length outs = length (queue ?s1)" using d(4) assms(4) by simp
  qed
  then show ?thesis using d(3,4,5) ws1 w0 by simp
qed

text \<open>
  Claim C6. In every reachable state, when the deadline of a handler passes while its
  future is pending, the handler returns status 504, which no execution error gives
  (those give status 500); the future is cancelled; the queue, the workers and the
  files are untouched, and a queued task stays queued in every later run until a
  worker takes it. The worker still finishes the task it runs, with whatever outcome,
  and serves every queued task: afterwards the audio file of each is gone and the
  future stays cancelled.
\<close>

theorem deadline_gives_504_job_continues:
  fixes evs token files
  defines "s \<equiv> run evs (init token files)"
  assumes "futures s n = Some Pending"
  shows "responses (step (Deadline n) s) n = Some (HTTPException 504 ''Transcription timed out'')
   \<and> futures (step (Deadline n) s) n = Some Cancelled
   \<and> (\<forall>tid exc. transcribe_audio_response tid (Raised exc) = HTTPException 500 (exn_str exc)
         \<and> transcribe_audio_response tid (Raised exc) \<noteq> HTTPException 504 ''Transcription timed out'')
   \<and> queue (step (Deadline n) s) = queue s
   \<and> workers (step (Deadline n) s) = workers s
   \<and> fs (step (Deadline n) s) = fs s
   \<and> (\<forall>later task. task \<in> set (queue s) \<longrightarrow>
         task \<in> set (queue (run later (step (Deadline n) s)))
         \<or> task \<in> set (get_log (run later (step (Deadline n) s))))
   \<and> (\<forall>w task p a. w < length (workers s) \<and> workers s ! w = Running task \<longrightarrow>
         audio_path task \<notin> fs (step (Worker_done w p a) (step (Deadline n) s))
         \<and> workers (step (Worker_done w p a) (step (Deadline n) s)) ! w = Waiting
         \<and> futures (step (Worker_done w p a) (step (Deadline n) s)) n = Some Cancelled)
   \<and> (\<forall>w task p a outs. w < length (workers s) \<and> workers s ! w = Running task
           \<and> length outs = length (queue s) \<longrightarrow>
         queue (run (Worker_done w p a # serve w outs) (step (Deadline n) s)) = []
         \<and> get_log (run (Worker_done w p a # serve w outs) (step (Deadline n) s))
             = get_log s @ queue s
         \<and> (\<forall>t \<in> set (queue s).
               audio_path t \<notin> fs (run (Worker_done w p a # serve w outs) (step (Deadline n) s)))
         \<and> futures (run (Worker_done w p a # serve w outs) (step (Deadline n) s)) n
             = Some Cancelled)
   \<and> (\<forall>w outs. w < length (workers s) \<and> workers s ! w = Waiting
           \<and> length outs = length (queue s) \<longrightarrow>
         queue (run (serve w outs) (step (Deadline n) s)) = []
         \<and> get_log (run (serve w outs) (step (Deadline n) s)) = get_log s @ queue s
         \<and> (\<forall>t \<in> set (queue s). audio_path t \<notin> fs (run (serve w outs) (step (Deadline n) s)))
         \<and> futures (run (serve w outs) (step (Deadline n) s)) n = Some Cancelled)"
proof -
  let ?d = "step (Deadline n) s"
  have I: "inv s" unfolding s_def by (rule inv_reachable)
  have Id: "inv ?d" by (rule inv_step [OF I])
  note dp = deadline_pending [OF assms(2)]
  have c1: "responses ?d n = Some (HTTPException 504 ''Transcription timed out'')"
    and c2: "futures ?d n = Some Cancelled"
    and c4: "queue ?d = queue s" and c5: "workers ?d = workers s" and c6: "fs ?d = fs s"
    and gl: "get_log ?d = get_log s" and pl: "put_log ?d = put_log s"
    unfolding dp by simp_all
  have c3: "\<forall>tid exc. transcribe_audio_response tid (Raised exc) = HTTPException 500 (exn_str exc)
         \<and> transcribe_audio_response tid (Raised exc) \<noteq> HTTPException 504 ''Transcription timed out''"
    by simp
  have stable: "futures (run later ?d) n = Some Cancelled" for later
    using done_future_stable_run [OF Id c2] by simp
  have c7: "task \<in> set (queue (run later ?d)) \<or> task \<in> set (get_log (run later ?d))"
    if "task \<in> set (queue s)" for later task
  proof -
    from I that have "task \<in> set (put_log s)" by (simp add: inv_def)
    with pl put_log_grows_run [of ?d later] have "task \<in> set (put_log (run later ?d))" by auto
    moreover from inv_run [OF Id, of later]
    have "put_log (run later ?d) = get_log (run later ?d) @ queue (run later ?d)"
      by (simp add: inv_def)
    ultimately show ?thesis by auto
  qed
  have c8: "audio_path task \<notin> fs (step (Worker_done w p a) ?d)
         \<and> workers (step (Worker_done w p a) ?d) ! w = Waiting
         \<and> futures (step (Worker_done w p a) ?d) n = Some Cancelled"
    if "w < length (workers s)" and "workers s ! w = Running task" for w task p a
  proof -
    from that c5 have r: "w < length (workers ?d)" "workers ?d ! w = Running task" by simp_all
    from running_inv [OF Id r] obtain f
      where un: "0 < unfinished_tasks ?d" and f: "futures ?d (future task) = Some f" by blast
    note wd = worker_done_running [OF r f, of p a]
    from wd(3) wd(6) [OF un] r(1) stable [of "[Worker_done w p a]"]
    show ?thesis by (simp del: step.simps)
  qed
  have c9: "queue (run (Worker_done w p a # serve w outs) ?d) = []
         \<and> get_log (run (Worker_done w p a # serve w outs) ?d) = get_log s @ queue s
         \<and> (\<forall>t \<in> set (queue s). audio_path t \<notin> fs (run (Worker_done w p a # serve w outs) ?d))
         \<and> futures (run (Worker_done w p a # serve w outs) ?d) n = Some Cancelled"
    if "w < length (workers s)" and "workers s ! w = Running task"
      and "length outs = length (queue s)" for w task p a outs
  proof -
    from that c5 c4 have r: "w < length (workers ?d)" "workers ?d ! w = Running task"
      "length outs = length (queue ?d)" by simp_all
    from finish_then_serve [OF Id r, of p a] stable [of "Worker_done w p a # serve w outs"] c4 gl c6
    show ?thesis by (simp del: run.simps step.simps)
  qed
  have c10: "queue (run (serve w outs) ?d) = []
         \<and> get_log (run (serve w outs) ?d) = get_log s @ queue s
         \<and> (\<forall>t \<in> set (queue s). audio_path t \<notin> fs (run (serve w outs) ?d))
         \<and> futures (run (serve w outs) ?d) n = Some Cancelled"
    if "w < length (workers s)" and "workers s ! w = Waiting"
      and "length outs = length (queue s)" for w outs
  proof -
    from that c5 c4 have r: "w < length (workers ?d)" "workers ?d ! w = Waiting"
      "length outs = length (queue ?d)" by simp_all
    from serve_drains [OF Id r] stable [of "serve w outs"] c4 gl c6
    show ?thesis by (simp del: run.simps step.simps)
  qed
  from c1 c2 c3 c4 c5 c6 c7 c8 c9 c10 show ?thesis by blast
qed

theorem deadline_gives_504_job_continues_witness:
  "responses (step (Deadline 0) (run [Startup, Request sample_upload] (init ''k'' {}))) 0
     = Some (HTTPException 504 ''Transcription timed out'')
   \<and> queue (step (Deadline 0) (run [Startup, Request sample_upload] (init ''k'' {})))
     = [sample_task]
   \<and> audio_path sample_task
       \<in> fs (step (Deadline 0) (run [Startup, Request sample_upload] (init ''k'' {})))
   \<and> audio_path sample_task
       \<notin> fs (run (serve 0 [(exit_ok, sample_json)])
                (step (Deadline 0) (run [Startup, Request sample_upload] (init ''k'' {}))))
   \<and> get_log (run (serve 0 [(exit_ok, sample_json)])
                (step (Deadline 0) (run [Startup, Request sample_upload] (init ''k'' {}))))
     = [sample_task]
   \<and> futures (run (serve 0 [(exit_ok, sample_json)])
                (step (Deadline 0) (run [Startup, Request sample_upload] (init ''k'' {})))) 0
     = Some Cancelled"
proof -
  let ?evs = "[Startup, Request sample_upload]"
  let ?s = "run ?evs (init ''k'' {})"
  have h1: "futures ?s 0 = Some Pending"
    by (simp add: sample_defs op_defs)
  have h2: "0 < length (workers ?s) \<and> workers ?s ! 0 = Waiting
            \<and> length [(exit_ok, sample_json)] = length (queue ?s)"
    by (simp add: sample_defs op_defs)
  have h3: "queue ?s = [sample_task]" "get_log ?s = []"
    by (simp_all add: sample_defs op_defs)
  have h4: "audio_path sample_task \<in> fs ?s"
    by (simp add: sample_defs op_defs)
  let ?d = "step (Deadline 0) ?s"
  note t = deadline_gives_504_job_continues [OF h1]
  from t have a: "responses ?d 0 = Some (HTTPException 504 ''Transcription timed out'')"
    and b: "queue ?d = queue ?s" and c: "fs ?d = fs ?s"
    by blast+
  from t have "\<forall>w outs. w < length (workers ?s) \<and> workers ?s ! w = Waiting
           \<and> length outs = length (queue ?s) \<longrightarrow>
         queue (run (serve w outs) ?d) = []
         \<and> get_log (run (serve w outs) ?d) = get_log ?s @ queue ?s
         \<and> (\<forall>t \<in> set (queue ?s). audio_path t \<notin> fs (run (serve w outs) ?d))
         \<and> futures (run (serve w outs) ?d) 0 = Some Cancelled"
    by blast
  with h2 have "get_log (run (serve 0 [(exit_ok, sample_json)]) ?d) = get_log ?s @ queue ?s
         \<and> (\<forall>t \<in> set (queue ?s). audio_path t \<notin> fs (run (serve 0 [(exit_ok, sample_json)]) ?d))
         \<and> futures (run (serve 0 [(exit_ok, sample_json)]) ?d) 0 = Some Cancelled"
    by blast
  with a b c h3 h4 show ?thesis by (simp del: run.simps step.simps)
qed

end
